theory Spec2Isabelle
  imports
    Main
    "HOL-Library.Word"
    "HOL-Library.Multiset"
    "HOL-Library.Sublist"
    "HOL-Library.AList"
    "HOL-Library.Char_ord"
    "HOL-Library.List_Lexorder"
begin

unbundle bit_operations_syntax

section \<open>The build-matrix script \<^verbatim>\<open>.github/scripts/ci-build-matrix.py\<close>\<close>

text \<open>
  The script reads the output of \<^verbatim>\<open>bst show\<close>, keeps the elements that are not cached,
  cuts the plan into a core prefix and round-robin chunks of the rest, names every chunk and
  hashes the sorted cache keys of its elements.

  A Python \<^verbatim>\<open>str\<close> is modelled as a \<^typ>\<open>string\<close>, each \<^typ>\<open>char\<close> standing for a
  code point below 256; \<^verbatim>\<open>bst\<close> prints ASCII names, states and hexadecimal keys.
  Python integers are \<^typ>\<open>int\<close>, list positions and lengths are \<^typ>\<open>nat\<close>.
  An exception is a value \<open>Inl e\<close> of a sum type.
\<close>

subsection \<open>Python built-ins used by the script\<close>

datatype py_error = ValueError | IndexError

text \<open>\<^verbatim>\<open>xs[i]\<close>: a negative index counts from the end, an index out of range raises.\<close>

definition getitem :: "'a list \<Rightarrow> int \<Rightarrow> py_error + 'a" where
  "getitem xs i =
     (if 0 \<le> i \<and> i < int (length xs) then Inr (xs ! nat i)
      else if i < 0 \<and> - int (length xs) \<le> i then Inr (xs ! nat (int (length xs) + i))
      else Inl IndexError)"

text \<open>\<^verbatim>\<open>xs[:stop]\<close> and \<^verbatim>\<open>xs[start:]\<close>: a negative bound counts from the end and the
  bounds are clipped to the list, so neither raises.\<close>

definition slice_to :: "'a list \<Rightarrow> int \<Rightarrow> 'a list" where
  "slice_to xs stop =
     (if stop < 0 then take (nat (int (length xs) + stop)) xs else take (nat stop) xs)"

definition slice_from :: "'a list \<Rightarrow> int \<Rightarrow> 'a list" where
  "slice_from xs start =
     (if start < 0 then drop (nat (int (length xs) + start)) xs else drop (nat start) xs)"

text \<open>\<^verbatim>\<open>xs[start::step]\<close> for a start that is not negative and a positive step: the elements
  at positions \<open>start\<close>, \<open>start + step\<close>, ... The first argument counts the elements still to
  be passed over before the next one is taken.\<close>

fun every_nth :: "nat \<Rightarrow> nat \<Rightarrow> 'a list \<Rightarrow> 'a list" where
  "every_nth k step [] = []"
| "every_nth k step (x # xs) =
     (if k = 0 then x # every_nth (step - 1) step xs else every_nth (k - 1) step xs)"

definition slice_step :: "'a list \<Rightarrow> nat \<Rightarrow> nat \<Rightarrow> 'a list" where
  "slice_step xs start step = every_nth start step xs"

text \<open>\<^verbatim>\<open>str.isspace\<close> on one character, for the code points below 256.\<close>

definition is_space :: "char \<Rightarrow> bool" where
  "is_space c =
     (let n = (of_char c :: nat)
      in (9 \<le> n \<and> n \<le> 13) \<or> (28 \<le> n \<and> n \<le> 32) \<or> n = 133 \<or> n = 160)"

definition strip :: "string \<Rightarrow> string" where
  "strip s = rev (dropWhile is_space (rev (dropWhile is_space s)))"

text \<open>The line boundaries of \<^verbatim>\<open>str.splitlines\<close> below 256; a carriage return followed by
  a line feed is one boundary.\<close>

definition is_linebreak :: "char \<Rightarrow> bool" where
  "is_linebreak c =
     (let n = (of_char c :: nat)
      in (10 \<le> n \<and> n \<le> 13) \<or> (28 \<le> n \<and> n \<le> 30) \<or> n = 133)"

fun splitlines_from :: "string \<Rightarrow> string \<Rightarrow> string list" where
  "splitlines_from cur [] = (if cur = [] then [] else [rev cur])"
| "splitlines_from cur [c] = (if is_linebreak c then [rev cur] else [rev (c # cur)])"
| "splitlines_from cur (c # d # cs) =
     (if is_linebreak c
      then rev cur #
        (if of_char c = (13 :: nat) \<and> of_char d = (10 :: nat)
         then splitlines_from [] cs else splitlines_from [] (d # cs))
      else splitlines_from (c # cur) (d # cs))"

definition splitlines :: "string \<Rightarrow> string list" where
  "splitlines s = splitlines_from [] s"

text \<open>\<^verbatim>\<open>s.split(sep)\<close>: cut at every occurrence of the separator, left to right, without
  overlap; an empty separator raises \<^verbatim>\<open>ValueError\<close>.\<close>

function split_from :: "string \<Rightarrow> string \<Rightarrow> string \<Rightarrow> string list" where
  "split_from sep cur [] = [rev cur]"
| "split_from sep cur (c # cs) =
     (if sep \<noteq> [] \<and> prefix sep (c # cs)
      then rev cur # split_from sep [] (drop (length sep) (c # cs))
      else split_from sep (c # cur) cs)"
  by pat_completeness auto
termination
  by (relation "measure (\<lambda>(sep, cur, s). length s)") auto

definition split_py :: "string \<Rightarrow> string \<Rightarrow> py_error + string list" where
  "split_py s sep = (if sep = [] then Inl ValueError else Inr (split_from sep [] s))"

text \<open>\<^verbatim>\<open>s.rsplit(sep, 1)\<close>: cut once, at the last occurrence of the separator.\<close>

fun find_last :: "string \<Rightarrow> string \<Rightarrow> string \<Rightarrow> (string \<times> string) option" where
  "find_last rsep acc [] = None"
| "find_last rsep acc (c # cs) =
     (if prefix rsep (c # cs) then Some (rev (drop (length rsep) (c # cs)), acc)
      else find_last rsep (c # acc) cs)"

definition rsplit1 :: "string \<Rightarrow> string \<Rightarrow> py_error + string list" where
  "rsplit1 s sep =
     (if sep = [] then Inl ValueError
      else case find_last (rev sep) [] (rev s) of
             None \<Rightarrow> Inr [s]
           | Some (before, after) \<Rightarrow> Inr [before, after])"

text \<open>\<^verbatim>\<open>s.replace(old, new)\<close>: every occurrence of \<open>old\<close>, left to right, without overlap;
  an empty \<open>old\<close> matches before every character and at the end.\<close>

function replace_from :: "string \<Rightarrow> string \<Rightarrow> string \<Rightarrow> string" where
  "replace_from old new [] = []"
| "replace_from old new (c # cs) =
     (if old \<noteq> [] \<and> prefix old (c # cs)
      then new @ replace_from old new (drop (length old) (c # cs))
      else c # replace_from old new cs)"
  by pat_completeness auto
termination
  by (relation "measure (\<lambda>(old, new, s). length s)") auto

definition replace_py :: "string \<Rightarrow> string \<Rightarrow> string \<Rightarrow> string" where
  "replace_py s old new =
     (if old = [] then new @ concat (map (\<lambda>c. c # new) s) else replace_from old new s)"

text \<open>\<^verbatim>\<open>sep.join(xs)\<close>.\<close>

fun join :: "string \<Rightarrow> string list \<Rightarrow> string" where
  "join sep [] = []"
| "join sep [x] = x"
| "join sep (x # y # ys) = x @ sep @ join sep (y # ys)"

text \<open>\<^verbatim>\<open>str(n)\<close> for an integer, as an f-string renders it.\<close>

definition digit_char :: "nat \<Rightarrow> char" where
  "digit_char d = ''0123456789'' ! d"

function str_nat :: "nat \<Rightarrow> string" where
  "str_nat n = (if n < 10 then [digit_char n] else str_nat (n div 10) @ [digit_char (n mod 10)])"
  by pat_completeness auto
termination
  by (relation "measure id") auto

declare str_nat.simps [simp del]

definition str_int :: "int \<Rightarrow> string" where
  "str_int i = (if i < 0 then CHR ''-'' # str_nat (nat (- i)) else str_nat (nat i))"

text \<open>\<^verbatim>\<open>s.encode()\<close>: UTF-8, one byte below 128 and two bytes from 128 to 255.\<close>

definition utf8_encode :: "string \<Rightarrow> 8 word list" where
  "utf8_encode s =
     concat (map (\<lambda>c. let n = (of_char c :: nat)
                       in if n < 128 then [of_nat n]
                          else [of_nat (192 + n div 64), of_nat (128 + n mod 64)]) s)"

text \<open>\<^verbatim>\<open>hexdigest()\<close> of a 256-bit digest: its 64 hexadecimal digits in lower case, the
  most significant first.\<close>

definition hex_char :: "nat \<Rightarrow> char" where
  "hex_char d = ''0123456789abcdef'' ! d"

definition hexdigest :: "256 word \<Rightarrow> string" where
  "hexdigest w = map (\<lambda>i. hex_char (unat (drop_bit (4 * (63 - i)) w AND 15))) [0..<64]"

subsection \<open>The build plan\<close>

record element =
  name :: string
  state :: string
  key :: string

text \<open>The body of the \<^verbatim>\<open>try\<close> block of \<^verbatim>\<open>get_build_plan\<close> for one line: \<open>Inl e\<close> when
  a statement raises \<open>e\<close>, \<open>Inr None\<close> when nothing is appended, \<open>Inr (Some el)\<close> when \<open>el\<close>
  is appended.\<close>

definition try_body :: "string \<Rightarrow> py_error + element option" where
  "try_body line =
     (case split_py line ''||'' of
        Inl e \<Rightarrow> Inl e
      | Inr parts \<Rightarrow>
          if length parts < 2 then Inr None
          else
            (case getitem parts 0 of
               Inl e \<Rightarrow> Inl e
             | Inr p0 \<Rightarrow>
                 (case getitem parts 1 of
                    Inl e \<Rightarrow> Inl e
                  | Inr p1 \<Rightarrow>
                      (case (if length parts > 2
                             then (case getitem parts 2 of
                                     Inl e \<Rightarrow> Inl e
                                   | Inr p2 \<Rightarrow> Inr (strip p2))
                             else Inr [])
                       of
                         Inl e \<Rightarrow> Inl e
                       | Inr full_key \<Rightarrow>
                           (if strip p1 \<noteq> ''cached''
                            then Inr (Some \<lparr>name = strip p0, state = strip p1,
                                            key = full_key\<rparr>)
                            else Inr None)))))"

text \<open>The loop over the lines. The state is the list \<open>elements\<close> and what was printed on
  the standard error stream; the handler of \<^verbatim>\<open>ValueError\<close> and \<^verbatim>\<open>IndexError\<close> prints
  the notice and goes on with the next line.\<close>

fun plan_loop :: "string list \<Rightarrow> element list \<times> string list \<Rightarrow> element list \<times> string list" where
  "plan_loop [] (elements, err) = (elements, err)"
| "plan_loop (line # lines) (elements, err) =
     (if strip line = [] then plan_loop lines (elements, err)
      else
        (case try_body line of
           Inl e \<Rightarrow> plan_loop lines (elements, err @ [''Skipping malformed line: '' @ line])
         | Inr None \<Rightarrow> plan_loop lines (elements, err)
         | Inr (Some el) \<Rightarrow> plan_loop lines (elements @ [el], err)))"

text \<open>\<^verbatim>\<open>get_build_plan\<close>, from the standard output of the \<^verbatim>\<open>bst show\<close> call on: the
  elements to build and the notices printed.\<close>

definition get_build_plan :: "string \<Rightarrow> element list \<times> string list" where
  "get_build_plan stdout = plan_loop (splitlines stdout) ([], [])"

subsection \<open>Chunks, their names and their cache keys\<close>

text \<open>\<^verbatim>\<open>[data[i::num_chunks] for i in range(num_chunks)]\<close>; the range is empty when
  \<open>num_chunks\<close> is not positive, so no slice with step 0 is ever taken.\<close>

definition chunk_list :: "'a list \<Rightarrow> int \<Rightarrow> 'a list list" where
  "chunk_list data num_chunks =
     map (\<lambda>i. slice_step data i (nat num_chunks)) [0..<nat num_chunks]"

definition make_chunk_name :: "int \<Rightarrow> element list \<Rightarrow> py_error + string" where
  "make_chunk_name index elements =
     (if elements = [] then Inr (''chunk'' @ str_int index)
      else
        (case getitem elements 0 of
           Inl e \<Rightarrow> Inl e
         | Inr el \<Rightarrow>
             (case rsplit1 (name el) ''/'' of
                Inl e \<Rightarrow> Inl e
              | Inr parts \<Rightarrow>
                  (case getitem parts (- 1) of
                     Inl e \<Rightarrow> Inl e
                   | Inr seg \<Rightarrow>
                       Inr (''chunk'' @ str_int index @ ''-'' @ replace_py seg ''.bst'' '''')))))"

text \<open>\<^verbatim>\<open>hashlib.sha256\<close> is not part of the script: the digest function is the parameter
  \<open>sha256\<close>, from the encoded bytes to the 256-bit digest.\<close>

definition compute_cache_key :: "(8 word list \<Rightarrow> 256 word) \<Rightarrow> element list \<Rightarrow> string" where
  "compute_cache_key sha256 elements =
     (let keys = sort (map key (filter (\<lambda>e. key e \<noteq> []) elements))
      in if keys = [] then []
         else hexdigest (sha256 (utf8_encode (join [CHR 0x0A] keys))))"

subsection \<open>The main function\<close>

record result =
  core :: string
  matrix :: "(string \<times> string) list"
  cache_keys :: "(string \<times> string) list"
  final :: string

text \<open>The two groups and the chunks of the leaves. A dictionary is an association list in
  insertion order; \<^const>\<open>AList.update\<close> overwrites the value of a key that is present and
  appends a new key, as an assignment \<^verbatim>\<open>d[k] = v\<close> does.\<close>

definition core_elements :: "element list \<Rightarrow> int \<Rightarrow> element list" where
  "core_elements elements core_split = slice_to elements core_split"

definition leaf_elements :: "element list \<Rightarrow> int \<Rightarrow> element list" where
  "leaf_elements elements core_split = slice_from elements core_split"

definition leaf_chunks :: "element list \<Rightarrow> int \<Rightarrow> element list list" where
  "leaf_chunks leaves num_chunks =
     (if leaves \<noteq> [] \<and> num_chunks > 0
      then chunk_list leaves (min num_chunks (int (length leaves)))
      else [])"

fun matrix_loop ::
  "(8 word list \<Rightarrow> 256 word) \<Rightarrow> (nat \<times> element list) list \<Rightarrow>
   (string \<times> string) list \<times> (string \<times> string) list \<Rightarrow>
   py_error + (string \<times> string) list \<times> (string \<times> string) list" where
  "matrix_loop sha256 [] (m, ck) = Inr (m, ck)"
| "matrix_loop sha256 ((i, chunk) # rest) (m, ck) =
     (if chunk = [] then matrix_loop sha256 rest (m, ck)
      else
        (case make_chunk_name (int i) chunk of
           Inl e \<Rightarrow> Inl e
         | Inr nm \<Rightarrow>
             (let m' = AList.update nm (join '' '' (map name chunk)) m;
                  k = compute_cache_key sha256 chunk
              in if k \<noteq> [] then matrix_loop sha256 rest (m', AList.update nm k ck)
                 else matrix_loop sha256 rest (m', ck))))"

text \<open>\<^verbatim>\<open>main\<close> from the test \<^verbatim>\<open>if not elements\<close> on, as a function of the parsed arguments
  and of the plan.\<close>

definition main_plan ::
  "(8 word list \<Rightarrow> 256 word) \<Rightarrow> string \<Rightarrow> int \<Rightarrow> int \<Rightarrow> element list \<Rightarrow> py_error + result" where
  "main_plan sha256 target num_chunks core_split elements =
     (if elements = []
      then Inr \<lparr>core = [], matrix = [], cache_keys = [], final = target\<rparr>
      else
        let chunks = leaf_chunks (leaf_elements elements core_split) num_chunks
        in (case matrix_loop sha256 (enumerate 0 chunks) ([], []) of
              Inl e \<Rightarrow> Inl e
            | Inr (m, ck) \<Rightarrow>
                Inr \<lparr>core = join '' '' (map name (core_elements elements core_split)),
                     matrix = m, cache_keys = ck, final = target\<rparr>))"

text \<open>\<^verbatim>\<open>main\<close> after the arguments are parsed: the lines printed on the standard error
  stream and the result printed as JSON, or the exception that ends the run.\<close>

definition main ::
  "(8 word list \<Rightarrow> 256 word) \<Rightarrow> string \<Rightarrow> int \<Rightarrow> int \<Rightarrow> string \<Rightarrow> string list \<times> (py_error + result)" where
  "main sha256 target num_chunks core_split stdout =
     (let (elements, err) = get_build_plan stdout
      in (err @ [''Found '' @ str_int (int (length elements)) @ '' elements to build''],
          main_plan sha256 target num_chunks core_split elements))"

subsection \<open>Notions used to state the properties\<close>

text \<open>The last path segment of a name: what follows its last slash.\<close>

definition last_segment :: "string \<Rightarrow> string" where
  "last_segment s = rev (takeWhile (\<lambda>c. c \<noteq> CHR ''/'') (rev s))"

text \<open>A string without a given suffix, when it ends with it.\<close>

definition strip_suffix :: "string \<Rightarrow> string \<Rightarrow> string" where
  "strip_suffix suf s = (if suffix suf s then take (length s - length suf) s else s)"

text \<open>The label as the specification words it: the last path segment, with the suffix
  \<^verbatim>\<open>.bst\<close> stripped if present.\<close>

definition spec_label :: "string \<Rightarrow> string" where
  "spec_label nm = strip_suffix ''.bst'' (last_segment nm)"

text \<open>\<open>occurs old s\<close>: the string \<open>old\<close> occurs somewhere in \<open>s\<close>.\<close>

fun occurs :: "string \<Rightarrow> string \<Rightarrow> bool" where
  "occurs old [] = (old = [])"
| "occurs old (c # cs) = (prefix old (c # cs) \<or> occurs old cs)"

text \<open>The name the loop of \<^verbatim>\<open>main\<close> gives to the chunk at a position.\<close>

definition chunk_name :: "nat \<Rightarrow> element list \<Rightarrow> string" where
  "chunk_name i chunk = (case make_chunk_name (int i) chunk of Inr nm \<Rightarrow> nm | Inl e \<Rightarrow> [])"

text \<open>The chunks the loop of \<^verbatim>\<open>main\<close> does not pass over, with their positions.\<close>

definition emitted :: "element list list \<Rightarrow> (nat \<times> element list) list" where
  "emitted chunks = filter (\<lambda>(i, chunk). chunk \<noteq> []) (enumerate 0 chunks)"

text \<open>The keys of a list of elements that are not empty, in the order of the elements.\<close>

definition nonempty_keys :: "element list \<Rightarrow> string list" where
  "nonempty_keys elements = filter (\<lambda>k. k \<noteq> []) (map key elements)"

text \<open>The fields of a line, the lines that are retained and the element a line stands
  for.\<close>

definition line_fields :: "string \<Rightarrow> string list" where
  "line_fields line = split_from ''||'' [] line"

definition retained :: "string \<Rightarrow> bool" where
  "retained line = (2 \<le> length (line_fields line) \<and> strip (line_fields line ! 1) \<noteq> ''cached'')"

definition element_of :: "string \<Rightarrow> element" where
  "element_of line =
     \<lparr>name = strip (line_fields line ! 0), state = strip (line_fields line ! 1),
      key = (if 2 < length (line_fields line) then strip (line_fields line ! 2) else [])\<rparr>"

text \<open>The digest function of the examples: the number of bytes hashed.\<close>

definition count_digest :: "8 word list \<Rightarrow> 256 word" where
  "count_digest bs = of_nat (length bs)"

text \<open>The plan of the worked example, after the filter: three elements to build, the
  last one without a key.\<close>

definition el :: "string \<Rightarrow> string \<Rightarrow> string \<Rightarrow> element" where
  "el n s k = \<lparr>name = n, state = s, key = k\<rparr>"

definition example_plan :: "element list" where
  "example_plan =
     [el ''a'' ''waiting'' ''k1'', el ''c'' ''waiting'' ''k3'', el ''d'' ''waiting'' '''']"

text \<open>Seven leaves, named by one letter each.\<close>

definition example_leaves :: "element list" where
  "example_leaves = map (\<lambda>c. el [c] ''waiting'' ''k'') ''abcdefg''"

section \<open>Properties\<close>

subsection \<open>Auxiliary facts\<close>

lemma find_last_char:
  "find_last [c0] acc xs =
     (if c0 \<in> set xs
      then Some (rev (tl (dropWhile (\<lambda>c. c \<noteq> c0) xs)), rev (takeWhile (\<lambda>c. c \<noteq> c0) xs) @ acc)
      else None)"
  by (induction xs arbitrary: acc) auto

lemma getitem_last: "xs \<noteq> [] \<Longrightarrow> getitem xs (- 1) = Inr (last xs)"
  by (cases xs rule: rev_cases) (auto simp: getitem_def nth_append)

lemma getitem_first: "xs \<noteq> [] \<Longrightarrow> getitem xs 0 = Inr (hd xs)"
  by (cases xs) (auto simp: getitem_def)

lemma rsplit1_slash:
  "\<exists>parts. rsplit1 s ''/'' = Inr parts \<and> parts \<noteq> [] \<and> last parts = last_segment s"
proof (cases "CHR ''/'' \<in> set s")
  case True
  then show ?thesis
    by (simp add: rsplit1_def find_last_char last_segment_def)
next
  case False
  then have "rev (takeWhile (\<lambda>c. c \<noteq> CHR ''/'') (rev s)) = s"
    by (subst takeWhile_eq_all_conv [THEN iffD2]) auto
  with False show ?thesis
    by (simp add: rsplit1_def find_last_char last_segment_def)
qed

lemma make_chunk_name_eq:
  "make_chunk_name i els =
     Inr (case els of
            [] \<Rightarrow> ''chunk'' @ str_int i
          | e # _ \<Rightarrow> ''chunk'' @ str_int i @ ''-'' @ replace_py (last_segment (name e)) ''.bst'' '''')"
proof (cases els)
  case Nil
  then show ?thesis by (simp add: make_chunk_name_def)
next
  case (Cons e es)
  obtain parts where p: "rsplit1 (name e) ''/'' = Inr parts" "parts \<noteq> []"
    "last parts = last_segment (name e)"
    using rsplit1_slash by blast
  show ?thesis
    using Cons p by (simp add: make_chunk_name_def getitem_first getitem_last)
qed

lemma matrix_loop_total: "\<exists>m' ck'. matrix_loop sha xs (m, ck) = Inr (m', ck')"
proof (induction xs arbitrary: m ck)
  case Nil
  then show ?case by simp
next
  case (Cons x xs)
  obtain i chunk where x: "x = (i, chunk)" by (cases x)
  show ?case
    using Cons.IH by (simp add: x make_chunk_name_eq Let_def)
qed


lemma digit_char_code: "d < 10 \<Longrightarrow> of_char (digit_char d) = (48 + d :: nat)"
proof -
  assume "d < 10"
  then have "d \<in> {0, 1, 2, 3, 4, 5, 6, 7, 8, 9}" by auto
  then show ?thesis by (auto simp: digit_char_def)
qed

lemma str_nat_value: "foldl (\<lambda>a c. 10 * a + (of_char c - 48)) 0 (str_nat n) = n"
proof (induction n rule: str_nat.induct)
  case (1 n)
  show ?case
  proof (cases "n < 10")
    case True
    then show ?thesis by (simp add: str_nat.simps [of n] digit_char_code)
  next
    case False
    have "n mod 10 < 10" by simp
    with False 1 show ?thesis
      by (simp add: str_nat.simps [of n] digit_char_code)
  qed
qed

lemma str_nat_inj: "str_nat a = str_nat b \<Longrightarrow> a = b"
  by (metis str_nat_value)

lemma str_nat_no_dash: "CHR ''-'' \<notin> set (str_nat n)"
proof (induction n rule: str_nat.induct)
  case (1 n)
  have d: "digit_char d \<noteq> CHR ''-''" if "d < 10" for d
  proof
    assume "digit_char d = CHR ''-''"
    then have "(of_char (digit_char d) :: nat) = of_char CHR ''-''" by simp
    with that show False by (simp add: digit_char_code)
  qed
  show ?case
  proof (cases "n < 10")
    case True
    then show ?thesis using d [of n] by (auto simp add: str_nat.simps [of n])
  next
    case False
    have "n mod 10 < 10" by simp
    with False 1 d [of "n mod 10"] show ?thesis
      by (auto simp add: str_nat.simps [of n])
  qed
qed

lemma append_sep_eq:
  assumes "xs @ c # r1 = ys @ c # r2" "c \<notin> set xs" "c \<notin> set ys"
  shows "xs = ys"
proof -
  have "takeWhile (\<lambda>x. x \<noteq> c) (xs @ c # r1) = xs"
    using assms(2) by (auto simp: takeWhile_tail)
  moreover have "takeWhile (\<lambda>x. x \<noteq> c) (ys @ c # r2) = ys"
    using assms(3) by (auto simp: takeWhile_tail)
  ultimately show ?thesis using assms(1) by simp
qed

lemma chunk_prefix_inj:
  assumes "''chunk'' @ str_int (int i) @ ''-'' @ l1 = ''chunk'' @ str_int (int j) @ ''-'' @ l2"
  shows "i = j"
proof -
  from assms have "str_nat i @ CHR ''-'' # l1 = str_nat j @ CHR ''-'' # l2"
    by (simp add: str_int_def)
  then have "str_nat i = str_nat j"
    by (rule append_sep_eq) (rule str_nat_no_dash)+
  then show ?thesis by (rule str_nat_inj)
qed

lemma update_fresh: "k \<notin> fst ` set al \<Longrightarrow> AList.update k v al = al @ [(k, v)]"
  by (induction al) auto

lemma make_chunk_name_chunk_name: "make_chunk_name (int i) chunk = Inr (chunk_name i chunk)"
  by (simp add: chunk_name_def make_chunk_name_eq)

lemma chunk_name_Cons:
  "chunk_name i (e # es) =
     ''chunk'' @ str_int (int i) @ ''-'' @ replace_py (last_segment (name e)) ''.bst'' ''''"
  by (simp add: chunk_name_def make_chunk_name_eq)

lemma chunk_name_inj:
  assumes "c \<noteq> []" "d \<noteq> []" "chunk_name i c = chunk_name j d"
  shows "i = j"
proof -
  obtain e es where c: "c = e # es" using assms(1) by (cases c) auto
  obtain f fs where d: "d = f # fs" using assms(2) by (cases d) auto
  show ?thesis
    using assms(3) unfolding c d chunk_name_Cons by (rule chunk_prefix_inj)
qed

lemma matrix_loop_exact:
  assumes "distinct (map (\<lambda>p. chunk_name (fst p) (snd p)) (filter (\<lambda>p. snd p \<noteq> []) xs))"
    and "\<forall>p \<in> set (filter (\<lambda>p. snd p \<noteq> []) xs).
           chunk_name (fst p) (snd p) \<notin> fst ` set m \<and> chunk_name (fst p) (snd p) \<notin> fst ` set ck"
  shows "matrix_loop sha xs (m, ck) =
     Inr (m @ map (\<lambda>p. (chunk_name (fst p) (snd p), join '' '' (map name (snd p))))
                (filter (\<lambda>p. snd p \<noteq> []) xs),
          ck @ map (\<lambda>p. (chunk_name (fst p) (snd p), compute_cache_key sha (snd p)))
                (filter (\<lambda>p. compute_cache_key sha (snd p) \<noteq> [])
                   (filter (\<lambda>p. snd p \<noteq> []) xs)))"
  using assms
proof (induction xs arbitrary: m ck)
  case Nil
  then show ?case by simp
next
  case (Cons x xs)
  obtain i chunk where x: "x = (i, chunk)" by (cases x)
  show ?case
  proof (cases "chunk = []")
    case True
    with Cons show ?thesis by (simp add: x)
  next
    case False
    let ?nm = "chunk_name i chunk"
    let ?m' = "m @ [(?nm, join '' '' (map name chunk))]"
    have fresh: "?nm \<notin> fst ` set m" "?nm \<notin> fst ` set ck"
      using Cons.prems(2) False by (auto simp: x)
    have d: "distinct (map (\<lambda>p. chunk_name (fst p) (snd p)) (filter (\<lambda>p. snd p \<noteq> []) xs))"
      and nin0: "?nm \<notin> set (map (\<lambda>p. chunk_name (fst p) (snd p)) (filter (\<lambda>p. snd p \<noteq> []) xs))"
      using Cons.prems(1) False by (simp_all add: x)
    have nin: "\<forall>p \<in> set (filter (\<lambda>p. snd p \<noteq> []) xs). chunk_name (fst p) (snd p) \<noteq> ?nm"
    proof
      fix p
      assume "p \<in> set (filter (\<lambda>p. snd p \<noteq> []) xs)"
      then have "chunk_name (fst p) (snd p)
          \<in> set (map (\<lambda>p. chunk_name (fst p) (snd p)) (filter (\<lambda>p. snd p \<noteq> []) xs))"
        by (simp only: set_map) (rule imageI)
      with nin0 show "chunk_name (fst p) (snd p) \<noteq> ?nm" by metis
    qed
    show ?thesis
    proof (cases "compute_cache_key sha chunk = []")
      case True
      have "\<forall>p \<in> set (filter (\<lambda>p. snd p \<noteq> []) xs).
              chunk_name (fst p) (snd p) \<notin> fst ` set ?m' \<and> chunk_name (fst p) (snd p) \<notin> fst ` set ck"
        using Cons.prems(2) nin by (auto simp: x)
      from Cons.IH [OF d this] True False fresh show ?thesis
        by (simp add: x make_chunk_name_chunk_name update_fresh Let_def)
    next
      case nonempty: False
      let ?ck' = "ck @ [(?nm, compute_cache_key sha chunk)]"
      have "\<forall>p \<in> set (filter (\<lambda>p. snd p \<noteq> []) xs).
              chunk_name (fst p) (snd p) \<notin> fst ` set ?m' \<and> chunk_name (fst p) (snd p) \<notin> fst ` set ?ck'"
        using Cons.prems(2) nin by (auto simp: x)
      from Cons.IH [OF d this] nonempty False fresh show ?thesis
        by (simp add: x make_chunk_name_chunk_name update_fresh Let_def)
    qed
  qed
qed

lemma emitted_names_distinct:
  "distinct (map (\<lambda>p. chunk_name (fst p) (snd p)) (filter (\<lambda>p. snd p \<noteq> []) (enumerate k chunks)))"
proof -
  have "inj_on (\<lambda>p. chunk_name (fst p) (snd p)) (set (filter (\<lambda>p. snd p \<noteq> []) (enumerate k chunks)))"
  proof (rule inj_onI)
    fix p q
    assume p: "p \<in> set (filter (\<lambda>p. snd p \<noteq> []) (enumerate k chunks))"
      and q: "q \<in> set (filter (\<lambda>p. snd p \<noteq> []) (enumerate k chunks))"
      and eq: "chunk_name (fst p) (snd p) = chunk_name (fst q) (snd q)"
    from p q eq have "fst p = fst q" by (auto dest: chunk_name_inj)
    moreover from p have "snd p = chunks ! (fst p - k)"
      by (simp add: in_set_enumerate_eq)
    moreover from q have "snd q = chunks ! (fst q - k)"
      by (simp add: in_set_enumerate_eq)
    ultimately show "p = q" by (simp add: prod_eq_iff)
  qed
  moreover have "distinct (filter (\<lambda>p. snd p \<noteq> []) (enumerate k chunks))"
    by simp
  ultimately show ?thesis by (simp add: distinct_map)
qed

lemma emitted_alt: "emitted chunks = filter (\<lambda>p. snd p \<noteq> []) (enumerate 0 chunks)"
  by (simp add: emitted_def case_prod_unfold)

lemma main_plan_eq:
  assumes "elements \<noteq> []"
  shows "main_plan sha target num_chunks core_split elements =
     Inr \<lparr>core = join '' '' (map name (core_elements elements core_split)),
          matrix = map (\<lambda>p. (chunk_name (fst p) (snd p), join '' '' (map name (snd p))))
                     (emitted (leaf_chunks (leaf_elements elements core_split) num_chunks)),
          cache_keys = map (\<lambda>p. (chunk_name (fst p) (snd p), compute_cache_key sha (snd p)))
                     (filter (\<lambda>p. compute_cache_key sha (snd p) \<noteq> [])
                        (emitted (leaf_chunks (leaf_elements elements core_split) num_chunks))),
          final = target\<rparr>"
proof -
  let ?xs = "enumerate 0 (leaf_chunks (leaf_elements elements core_split) num_chunks)"
  have "matrix_loop sha ?xs ([], []) =
     Inr ([] @ map (\<lambda>p. (chunk_name (fst p) (snd p), join '' '' (map name (snd p))))
                (filter (\<lambda>p. snd p \<noteq> []) ?xs),
          [] @ map (\<lambda>p. (chunk_name (fst p) (snd p), compute_cache_key sha (snd p)))
                (filter (\<lambda>p. compute_cache_key sha (snd p) \<noteq> [])
                   (filter (\<lambda>p. snd p \<noteq> []) ?xs)))"
    by (rule matrix_loop_exact) (simp_all add: emitted_names_distinct)
  with assms show ?thesis
    by (simp add: main_plan_def Let_def emitted_alt)
qed

lemma main_plan_total: "\<exists>r. main_plan sha target num_chunks core_split elements = Inr r"
proof (cases "elements = []")
  case True
  then show ?thesis by (simp add: main_plan_def)
next
  case False
  then show ?thesis by (simp add: main_plan_eq)
qed

lemma nonempty_keys_alt:
  "map key (filter (\<lambda>e. key e \<noteq> []) elements) = nonempty_keys elements"
  by (simp add: nonempty_keys_def filter_map comp_def)

lemma sort_Nil_iff: "sort xs = [] \<longleftrightarrow> xs = ([] :: string list)"
  by (metis length_sort length_0_conv)

lemma compute_cache_key_keys:
  "compute_cache_key sha elements =
     (if nonempty_keys elements = [] then []
      else hexdigest (sha (utf8_encode (join [CHR 0x0A] (sort (nonempty_keys elements))))))"
  by (simp add: compute_cache_key_def Let_def nonempty_keys_alt sort_Nil_iff)

lemma sort_mset_cong: "mset xs = mset ys \<Longrightarrow> sort xs = sort (ys :: string list)"
  by (rule properties_for_sort) simp_all

lemma compute_cache_key_cong:
  assumes "mset (nonempty_keys xs) = mset (nonempty_keys ys)"
  shows "compute_cache_key sha xs = compute_cache_key sha ys"
proof -
  from assms have "sort (nonempty_keys xs) = sort (nonempty_keys ys)"
    by (rule sort_mset_cong)
  moreover from assms have "nonempty_keys xs = [] \<longleftrightarrow> nonempty_keys ys = []"
    by (metis mset_zero_iff)
  ultimately show ?thesis by (simp add: compute_cache_key_keys)
qed

lemma length_hexdigest: "length (hexdigest w) = 64"
  by (simp add: hexdigest_def)

lemma hexdigest_nonempty: "hexdigest w \<noteq> []"
  using length_hexdigest [of w] by auto

lemma compute_cache_key_empty_iff:
  "compute_cache_key sha elements = [] \<longleftrightarrow> (\<forall>e \<in> set elements. key e = [])"
  by (auto simp: compute_cache_key_keys hexdigest_nonempty nonempty_keys_def filter_empty_conv)

lemma last_hexdigest: "last (hexdigest w) = hex_char (unat (w AND 15))"
proof -
  have "last (hexdigest w) = hex_char (unat (drop_bit (4 * (63 - last [0..<64])) w AND 15))"
    unfolding hexdigest_def by (rule last_map) simp
  moreover have "last [0..<64] = (63 :: nat)"
    by (subst last_upt) simp_all
  ultimately show ?thesis by simp
qed

lemma replace_from_absent: "\<not> occurs old s \<Longrightarrow> replace_from old new s = s"
  by (induction s) auto

lemma bst_straddle:
  assumes "prefix ''.bst'' (s @ ''.bst'')" "s \<noteq> []"
  shows "prefix ''.bst'' s"
proof -
  obtain a s1 where s: "s = a # s1" using assms(2) by (cases s) auto
  show ?thesis
  proof (cases s1)
    case Nil
    with assms(1) s show ?thesis by simp
  next
    case (Cons b s2)
    note s1 = this
    show ?thesis
    proof (cases s2)
      case Nil
      with assms(1) s s1 show ?thesis by simp
    next
      case (Cons c s3)
      note s2 = this
      show ?thesis
      proof (cases s3)
        case Nil
        with assms(1) s s1 s2 show ?thesis by simp
      next
        case (Cons d s4)
        with assms(1) s s1 s2 show ?thesis by simp
      qed
    qed
  qed
qed

lemma replace_from_step:
  "\<not> prefix old (c # cs) \<Longrightarrow> replace_from old new (c # cs) = c # replace_from old new cs"
  by simp

lemma replace_from_bst_suffix:
  "\<not> occurs ''.bst'' s \<Longrightarrow> replace_from ''.bst'' '''' (s @ ''.bst'') = s"
proof (induction s)
  case Nil
  show ?case by simp
next
  case (Cons c cs)
  from Cons.prems have np: "\<not> prefix ''.bst'' (c # cs)" and no: "\<not> occurs ''.bst'' cs"
    by simp_all
  have "\<not> prefix ''.bst'' ((c # cs) @ ''.bst'')"
    using np bst_straddle [of "c # cs"] by blast
  then have np': "\<not> prefix ''.bst'' (c # (cs @ ''.bst''))"
    by simp
  have step: "replace_from ''.bst'' '''' (c # (cs @ ''.bst''))
      = c # replace_from ''.bst'' '''' (cs @ ''.bst'')"
    by (rule replace_from_step [OF np'])
  show ?case
    unfolding append_Cons step Cons.IH [OF no] ..
qed

lemma replace_bst_label:
  assumes "\<not> occurs ''.bst'' (strip_suffix ''.bst'' seg)"
  shows "replace_py seg ''.bst'' '''' = strip_suffix ''.bst'' seg"
proof (cases "suffix ''.bst'' seg")
  case True
  then obtain s where seg: "seg = s @ ''.bst''" by (auto simp: suffix_def)
  have label: "strip_suffix ''.bst'' seg = s"
    using True by (simp add: strip_suffix_def seg)
  with assms have "\<not> occurs ''.bst'' s" by simp
  then have "replace_from ''.bst'' '''' (s @ ''.bst'') = s"
    by (rule replace_from_bst_suffix)
  then show ?thesis by (simp add: seg [symmetric] label replace_py_def)
next
  case False
  with assms show ?thesis by (simp add: replace_py_def strip_suffix_def replace_from_absent)
qed

lemma strip_empty_all_space:
  assumes "strip s = []"
  shows "\<forall>c \<in> set s. is_space c"
proof -
  from assms have all: "\<forall>x \<in> set (dropWhile is_space s). is_space x"
    by (simp add: strip_def dropWhile_eq_Nil_conv)
  have "dropWhile is_space s = []"
  proof (rule ccontr)
    assume ne: "dropWhile is_space s \<noteq> []"
    then have "\<not> is_space (hd (dropWhile is_space s))" by (rule hd_dropWhile)
    moreover from ne have "hd (dropWhile is_space s) \<in> set (dropWhile is_space s)" by simp
    ultimately show False using all by blast
  qed
  then show ?thesis by (simp add: dropWhile_eq_Nil_conv)
qed

lemma split_from_no_bar:
  "CHR ''|'' \<notin> set s \<Longrightarrow> split_from ''||'' cur s = [rev cur @ s]"
  by (induction s arbitrary: cur) auto

lemma blank_line_one_field:
  assumes "strip line = []"
  shows "length (line_fields line) = 1"
proof -
  have "\<not> is_space CHR ''|''" by (simp add: is_space_def)
  with strip_empty_all_space [OF assms] have "CHR ''|'' \<notin> set line" by blast
  then show ?thesis by (simp add: line_fields_def split_from_no_bar)
qed

lemma try_body_eq:
  "try_body line = Inr (if retained line then Some (element_of line) else None)"
proof (cases "length (line_fields line) < 2")
  case True
  then show ?thesis
    by (simp add: try_body_def split_py_def line_fields_def [symmetric] retained_def)
next
  case False
  then show ?thesis
    by (auto simp add: try_body_def split_py_def line_fields_def [symmetric] retained_def
        element_of_def getitem_def)
qed

lemma plan_loop_eq:
  "plan_loop lines (elements, err) = (elements @ map element_of (filter retained lines), err)"
proof (induction lines arbitrary: elements)
  case Nil
  show ?case by simp
next
  case (Cons line lines)
  show ?case
  proof (cases "strip line = []")
    case True
    then have "\<not> retained line"
      using blank_line_one_field [of line] by (simp add: retained_def)
    with True Cons show ?thesis by simp
  next
    case False
    with Cons show ?thesis by (simp add: try_body_eq)
  qed
qed

lemma length_every_nth:
  "0 < step \<Longrightarrow> length (every_nth k step xs) = (length xs - k + (step - 1)) div step"
proof (induction k step xs rule: every_nth.induct)
  case (1 k step)
  then show ?case by simp
next
  case (2 k step x xs)
  show ?case
  proof (cases "k = 0")
    case True
    have a: "(length xs - (step - 1) + (step - 1)) div step = length xs div step"
    proof (cases "step - 1 \<le> length xs")
      case True
      then show ?thesis by simp
    next
      case False
      with 2(3) show ?thesis by simp
    qed
    have "Suc (length xs) + (step - 1) = length xs + step"
      using 2(3) by simp
    then have b: "(Suc (length xs) + (step - 1)) div step = Suc (length xs div step)"
      using 2(3) by (simp only: div_add_self2)
    from True 2(1) [OF True 2(3)] a b show ?thesis by simp
  next
    case False
    then have "length xs - (k - 1) = Suc (length xs) - k" by simp
    with False 2(2) [OF False 2(3)] show ?thesis by simp
  qed
qed

lemma index_in_chunk_iff:
  fixes t L i N :: nat
  assumes "0 < N"
  shows "t < (L - i + (N - 1)) div N \<longleftrightarrow> i + t * N < L"
proof -
  have "t < (L - i + (N - 1)) div N \<longleftrightarrow> Suc t \<le> (L - i + (N - 1)) div N"
    by auto
  also have "\<dots> \<longleftrightarrow> Suc t * N \<le> L - i + (N - 1)"
    using assms by (rule less_eq_div_iff_mult_less_eq)
  also have "\<dots> \<longleftrightarrow> t * N + N \<le> L - i + (N - 1)"
    by (simp add: add.commute)
  also have "\<dots> \<longleftrightarrow> i + t * N < L"
    using assms by arith
  finally show ?thesis .
qed

lemma nth_every_nth:
  "0 < step \<Longrightarrow> i < length (every_nth k step xs) \<Longrightarrow>
     every_nth k step xs ! i = xs ! (k + i * step)"
proof (induction k step xs arbitrary: i rule: every_nth.induct)
  case (1 k step)
  then show ?case by simp
next
  case (2 k step x xs)
  show ?case
  proof (cases "k = 0")
    case True
    show ?thesis
    proof (cases i)
      case 0
      with True show ?thesis by simp
    next
      case (Suc j)
      with True 2(4) have j: "j < length (every_nth (step - 1) step xs)" by simp
      have ih: "every_nth (step - 1) step xs ! j = xs ! (step - 1 + j * step)"
        using 2(1) [OF True 2(3) j] .
      have e: "0 + Suc j * step = Suc (step - 1 + j * step)"
        using 2(3) by simp
      have r: "(x # xs) ! (0 + Suc j * step) = xs ! (step - 1 + j * step)"
        by (simp only: e nth_Cons_Suc)
      have l: "every_nth 0 step (x # xs) ! Suc j = every_nth (step - 1) step xs ! j"
        by simp
      show ?thesis
        unfolding True Suc l r by (rule ih)
    qed
  next
    case False
    with 2(4) have i: "i < length (every_nth (k - 1) step xs)" by simp
    have ih: "every_nth (k - 1) step xs ! i = xs ! (k - 1 + i * step)"
      using 2(2) [OF False 2(3) i] .
    have e: "k + i * step = Suc (k - 1 + i * step)"
      using False by simp
    have r: "(x # xs) ! (k + i * step) = xs ! (k - 1 + i * step)"
      by (simp only: e nth_Cons_Suc)
    have l: "every_nth k step (x # xs) ! i = every_nth (k - 1) step xs ! i"
      using False by simp
    show ?thesis
      unfolding l r by (rule ih)
  qed
qed

lemma length_chunk_list: "length (chunk_list xs (int N)) = N"
  by (simp add: chunk_list_def)

lemma nth_chunk_list: "i < N \<Longrightarrow> chunk_list xs (int N) ! i = every_nth i N xs"
  by (simp add: chunk_list_def slice_step_def)

lemma sum_list_upt_Suc_shift:
  fixes f :: "nat \<Rightarrow> 'a multiset"
  shows "(\<Sum>i\<leftarrow>[0..<Suc n]. f i) = f 0 + (\<Sum>i\<leftarrow>[0..<n]. f (Suc i))"
proof -
  have "[0..<Suc n] = 0 # map Suc [0..<n]"
    by (simp only: upt_conv_Cons [of 0 "Suc n"] map_Suc_upt)
  then show ?thesis by (simp only: list.map sum_list.Cons map_map comp_def)
qed

lemma sum_list_upt_Suc_last:
  fixes f :: "nat \<Rightarrow> 'a multiset"
  shows "(\<Sum>i\<leftarrow>[0..<Suc n]. f i) = (\<Sum>i\<leftarrow>[0..<n]. f i) + f n"
  by simp

lemma mset_every_nth_sum:
  "(\<Sum>i\<leftarrow>[0..<Suc n]. mset (every_nth i (Suc n) xs)) = mset xs"
proof (induction xs)
  case Nil
  show ?case by (induction n) simp_all
next
  case (Cons x xs)
  have "(\<Sum>i\<leftarrow>[0..<Suc n]. mset (every_nth i (Suc n) (x # xs)))
      = mset (every_nth 0 (Suc n) (x # xs))
        + (\<Sum>i\<leftarrow>[0..<n]. mset (every_nth (Suc i) (Suc n) (x # xs)))"
    by (rule sum_list_upt_Suc_shift)
  also have "\<dots> = add_mset x (mset (every_nth n (Suc n) xs))
        + (\<Sum>i\<leftarrow>[0..<n]. mset (every_nth i (Suc n) xs))"
    by simp
  also have "\<dots> = add_mset x ((\<Sum>i\<leftarrow>[0..<n]. mset (every_nth i (Suc n) xs))
        + mset (every_nth n (Suc n) xs))"
    by (simp add: add.commute)
  also have "\<dots> = add_mset x (\<Sum>i\<leftarrow>[0..<Suc n]. mset (every_nth i (Suc n) xs))"
    by (simp only: sum_list_upt_Suc_last)
  finally show ?case by (simp only: Cons.IH mset.simps)
qed


lemma mset_concat_chunk_list:
  assumes "0 < N"
  shows "mset (concat (chunk_list xs (int N))) = mset xs"
proof -
  obtain n where N: "N = Suc n" using assms by (cases N) auto
  have "chunk_list xs (int N) = map (\<lambda>i. every_nth i N xs) [0..<N]"
    by (simp add: chunk_list_def slice_step_def)
  then have "mset (concat (chunk_list xs (int N)))
      = (\<Sum>i\<leftarrow>[0..<N]. mset (every_nth i N xs))"
    by (simp only: mset_concat map_map comp_def)
  then show ?thesis unfolding N by (simp only: mset_every_nth_sum)
qed

lemma every_nth_as_map:
  assumes "0 < N"
  shows "every_nth i N xs = map (\<lambda>t. xs ! (i + t * N)) [0..<(length xs - i + (N - 1)) div N]"
proof (rule nth_equalityI)
  show "length (every_nth i N xs)
      = length (map (\<lambda>t. xs ! (i + t * N)) [0..<(length xs - i + (N - 1)) div N])"
    using assms by (simp add: length_every_nth)
next
  fix t
  assume t: "t < length (every_nth i N xs)"
  then have "t < (length xs - i + (N - 1)) div N"
    using assms by (simp add: length_every_nth)
  then show "every_nth i N xs ! t
      = map (\<lambda>t. xs ! (i + t * N)) [0..<(length xs - i + (N - 1)) div N] ! t"
    using nth_every_nth [OF assms t] by simp
qed

lemma chunk_indices:
  assumes "0 < N" "i < N"
  shows "filter (\<lambda>j. j mod N = i) [0..<L] = map (\<lambda>t. i + t * N) [0..<(L - i + (N - 1)) div N]"
proof (rule strict_sorted_equal)
  show "sorted_wrt (<) (map (\<lambda>t. i + t * N) [0..<(L - i + (N - 1)) div N])"
    using assms(1) by (simp add: sorted_wrt_map sorted_wrt_iff_nth_less)
  show "sorted_wrt (<) (filter (\<lambda>j. j mod N = i) [0..<L])"
    by (rule sorted_wrt_filter) simp
  show "set (filter (\<lambda>j. j mod N = i) [0..<L])
      = set (map (\<lambda>t. i + t * N) [0..<(L - i + (N - 1)) div N])"
  proof (rule set_eqI)
    fix j
    show "j \<in> set (filter (\<lambda>j. j mod N = i) [0..<L])
        \<longleftrightarrow> j \<in> set (map (\<lambda>t. i + t * N) [0..<(L - i + (N - 1)) div N])"
    proof
      assume "j \<in> set (filter (\<lambda>j. j mod N = i) [0..<L])"
      then have j: "j < L" "j mod N = i" by simp_all
      have e: "j = i + (j div N) * N"
        using j(2) by (metis mod_div_mult_eq)
      with j(1) have "i + (j div N) * N < L" by simp
      then have "j div N < (L - i + (N - 1)) div N"
        using assms(1) by (simp only: index_in_chunk_iff)
      with e show "j \<in> set (map (\<lambda>t. i + t * N) [0..<(L - i + (N - 1)) div N])"
        by (simp add: image_iff) (metis atLeastLessThan_iff le0)
    next
      assume "j \<in> set (map (\<lambda>t. i + t * N) [0..<(L - i + (N - 1)) div N])"
      then obtain t where t: "t < (L - i + (N - 1)) div N" "j = i + t * N"
        by auto
      from t(1) have "i + t * N < L"
        using assms(1) by (simp only: index_in_chunk_iff)
      moreover have "(i + t * N) mod N = i"
        using assms(2) by simp
      ultimately show "j \<in> set (filter (\<lambda>j. j mod N = i) [0..<L])"
        using t(2) by simp
    qed
  qed
qed

lemma chunk_size_bounds:
  fixes L N i :: nat
  assumes "0 < N" "N \<le> L" "i < N"
  shows "(L - i + (N - 1)) div N = L div N \<or> (L - i + (N - 1)) div N = (L + N - 1) div N"
proof -
  have "L \<le> L - i + (N - 1)" using assms by linarith
  then have lo: "L div N \<le> (L - i + (N - 1)) div N" by (rule div_le_mono)
  have "L - i + (N - 1) \<le> L + N - 1" using assms by linarith
  then have hi: "(L - i + (N - 1)) div N \<le> (L + N - 1) div N" by (rule div_le_mono)
  have "L + N - 1 \<le> L + N" by simp
  then have "(L + N - 1) div N \<le> (L + N) div N" by (rule div_le_mono)
  also have "\<dots> = L div N + 1" using assms(1) by (simp only: div_add_self2) 
  finally have top: "(L + N - 1) div N \<le> L div N + 1" .
  from lo hi top show ?thesis by linarith
qed

lemma leaf_chunks_eq:
  assumes "1 \<le> N" "N \<le> length leaf"
  shows "leaf_chunks leaf (int N) = chunk_list leaf (int N)"
proof -
  from assms have "leaf \<noteq> []" by auto
  moreover from assms have "min (int N) (int (length leaf)) = int N" by simp
  ultimately show ?thesis using assms(1) by (simp add: leaf_chunks_def)
qed

lemma leaf_chunks_Nil: "leaf_chunks [] n = []"
  by (simp add: leaf_chunks_def)

lemma slices_Nil: "slice_to [] c = []" "slice_from [] c = []"
  by (simp_all add: slice_to_def slice_from_def)

lemma main_plan_eq_all:
  "main_plan sha target num_chunks core_split elements =
     Inr \<lparr>core = join '' '' (map name (core_elements elements core_split)),
          matrix = map (\<lambda>p. (chunk_name (fst p) (snd p), join '' '' (map name (snd p))))
                     (emitted (leaf_chunks (leaf_elements elements core_split) num_chunks)),
          cache_keys = map (\<lambda>p. (chunk_name (fst p) (snd p), compute_cache_key sha (snd p)))
                     (filter (\<lambda>p. compute_cache_key sha (snd p) \<noteq> [])
                        (emitted (leaf_chunks (leaf_elements elements core_split) num_chunks))),
          final = target\<rparr>"
proof (cases "elements = []")
  case True
  then show ?thesis
    by (simp add: main_plan_def core_elements_def leaf_elements_def slices_Nil leaf_chunks_Nil
        emitted_def)
next
  case False
  then show ?thesis by (rule main_plan_eq)
qed

lemma slices_partition: "slice_to xs c @ slice_from xs c = xs"
  by (simp add: slice_to_def slice_from_def)

lemma leaf_chunks_cases:
  obtains (none) "leaf = [] \<or> n \<le> 0" "leaf_chunks leaf n = []"
  | (some) N where "leaf \<noteq> []" "0 < n" "N = min (nat n) (length leaf)" "1 \<le> N" "N \<le> length leaf"
      "leaf_chunks leaf n = chunk_list leaf (int N)"
proof (cases "leaf \<noteq> [] \<and> 0 < n")
  case False
  then have "leaf = [] \<or> n \<le> 0" by auto
  moreover from False have "leaf_chunks leaf n = []" by (auto simp: leaf_chunks_def)
  ultimately show ?thesis by (rule none)
next
  case True
  let ?N = "min (nat n) (length leaf)"
  have "int ?N = min n (int (length leaf))" using True by auto
  then have "leaf_chunks leaf n = chunk_list leaf (int ?N)"
    using True by (simp add: leaf_chunks_def)
  moreover have "1 \<le> ?N" using True by (cases leaf) auto
  moreover have "?N \<le> length leaf" by simp
  ultimately show ?thesis using True some by blast
qed

lemma chunk_list_nonempty:
  assumes "1 \<le> N" "N \<le> length leaf" "chunk \<in> set (chunk_list leaf (int N))"
  shows "chunk \<noteq> []"
proof -
  from assms(1) have N: "0 < N" by simp
  from assms(3) obtain i where i: "i < N" "chunk = chunk_list leaf (int N) ! i"
    by (auto simp: in_set_conv_nth length_chunk_list)
  have "i + 0 * N < length leaf" using i(1) assms(2) by simp
  then have "0 < (length leaf - i + (N - 1)) div N"
    using N by (simp only: index_in_chunk_iff)
  then have "0 < length chunk"
    using i N by (simp add: nth_chunk_list length_every_nth)
  then show ?thesis by auto
qed

lemma leaf_chunks_nonempty:
  assumes "chunk \<in> set (leaf_chunks leaf n)"
  shows "chunk \<noteq> []"
proof (cases leaf n rule: leaf_chunks_cases)
  case none
  with assms show ?thesis by simp
next
  case (some N)
  from assms have "chunk \<in> set (chunk_list leaf (int N))"
    by (simp only: some(6))
  with some(4) some(5) show ?thesis by (rule chunk_list_nonempty)
qed

lemma length_leaf_chunks:
  "length (leaf_chunks leaf n) = (if leaf \<noteq> [] \<and> 0 < n then min (nat n) (length leaf) else 0)"
proof (cases leaf n rule: leaf_chunks_cases)
  case none
  then show ?thesis by auto
next
  case (some N)
  then show ?thesis by (simp add: length_chunk_list)
qed

lemma emitted_leaf_chunks: "emitted (leaf_chunks leaf n) = enumerate 0 (leaf_chunks leaf n)"
proof -
  have "\<forall>p \<in> set (enumerate 0 (leaf_chunks leaf n)). snd p \<noteq> []"
  proof
    fix p
    assume "p \<in> set (enumerate 0 (leaf_chunks leaf n))"
    then have "fst p < length (leaf_chunks leaf n)" "snd p = leaf_chunks leaf n ! fst p"
      by (simp_all add: in_set_enumerate_eq)
    then have "snd p \<in> set (leaf_chunks leaf n)"
      by (simp only: nth_mem)
    then show "snd p \<noteq> []" by (rule leaf_chunks_nonempty)
  qed
  then show ?thesis by (simp add: emitted_alt)
qed

lemma mset_concat_leaf_chunks:
  assumes "0 < n \<or> leaf = []"
  shows "mset (concat (leaf_chunks leaf n)) = mset leaf"
proof (cases leaf n rule: leaf_chunks_cases)
  case none
  with assms show ?thesis by auto
next
  case (some N)
  then show ?thesis by (simp add: mset_concat_chunk_list)
qed

lemma map_snd_enumerate_comp: "map (\<lambda>p. f (snd p)) (enumerate n xs) = map f xs"
proof -
  have "map (\<lambda>p. f (snd p)) (enumerate n xs) = map f (map snd (enumerate n xs))"
    by (simp only: map_map comp_def)
  then show ?thesis by (simp only: map_snd_enumerate)
qed

lemma emitted_names_inj:
  "inj_on (\<lambda>p. chunk_name (fst p) (snd p)) (set (emitted chunks))"
  using emitted_names_distinct [of 0 chunks] by (simp add: emitted_alt distinct_map)

lemma entry_names: "fst ` set (map (\<lambda>p. (f p, g p)) xs) = f ` set xs"
  by (simp add: image_image)

lemma key_entry_member:
  assumes "inj_on f (set xs)" "p \<in> set xs"
  shows "(f p \<in> fst ` set (map (\<lambda>p. (f p, h p)) (filter P xs))) = P p"
proof
  assume "f p \<in> fst ` set (map (\<lambda>p. (f p, h p)) (filter P xs))"
  then have "f p \<in> f ` set (filter P xs)" by (simp only: entry_names)
  then obtain q where q: "q \<in> set xs" "P q" "f p = f q" by auto
  from assms(1) q(3) assms(2) q(1) have "p = q" by (rule inj_onD)
  with q(2) show "P p" by simp
next
  assume "P p"
  with assms(2) have "p \<in> set (filter P xs)" by simp
  then have "f p \<in> f ` set (filter P xs)" by (rule imageI)
  then show "f p \<in> fst ` set (map (\<lambda>p. (f p, h p)) (filter P xs))" by (simp only: entry_names)
qed

lemma key_entries_subset:
  "fst ` set (map (\<lambda>p. (f p, h p)) (filter P xs)) \<subseteq> fst ` set (map (\<lambda>p. (f p, g p)) xs)"
  unfolding entry_names by auto

subsection \<open>The degenerate case\<close>

text \<open>
  C8: when the filter yields no element, \<^verbatim>\<open>main\<close> prints the result with an empty core,
  an empty matrix, no cache keys and the target unchanged, whatever the chunk count and the
  core split are: neither is looked at.
\<close>

theorem degenerate_empty_plan:
  "main_plan sha256 target num_chunks core_split [] =
     Inr \<lparr>core = [], matrix = [], cache_keys = [], final = target\<rparr>
   \<and> (fst (get_build_plan stdout) = [] \<longrightarrow>
        snd (main sha256 target num_chunks core_split stdout) =
          Inr \<lparr>core = [], matrix = [], cache_keys = [], final = target\<rparr>)"
  by (simp add: main_plan_def main_def split: prod.splits)

theorem degenerate_empty_plan_witness:
  "fst (get_build_plan ''b||cached||k2'') = []
   \<and> snd (main count_digest ''tgt'' 2 1 ''b||cached||k2'') =
       Inr \<lparr>core = [], matrix = [], cache_keys = [], final = ''tgt''\<rparr>"
proof -
  have h: "fst (get_build_plan ''b||cached||k2'') = []"
    by code_simp
  with degenerate_empty_plan [of count_digest "''tgt''" 2 1 "''b||cached||k2''"]
  show ?thesis by simp
qed

subsection \<open>The core and the leaves\<close>

text \<open>
  C6: for a core split that is not negative, the core group is the first \<open>core_split\<close>
  elements of the plan and the leaf group is the rest; the core is printed as the names of
  its elements, in their order, joined by single spaces; a plan with fewer elements than
  the core split is all core and has no leaves.
\<close>

theorem core_leaf_split:
  assumes "0 \<le> core_split"
  shows "core_elements elements core_split = take (nat core_split) elements
     \<and> leaf_elements elements core_split = drop (nat core_split) elements
     \<and> (\<exists>r. main_plan sha256 target num_chunks core_split elements = Inr r
            \<and> core r = join '' '' (map name (take (nat core_split) elements)))
     \<and> (int (length elements) < core_split \<longrightarrow>
          core_elements elements core_split = elements
          \<and> leaf_elements elements core_split = [])"
proof -
  have c: "core_elements elements core_split = take (nat core_split) elements"
    and l: "leaf_elements elements core_split = drop (nat core_split) elements"
    using assms by (simp_all add: core_elements_def leaf_elements_def slice_to_def slice_from_def)
  have m: "\<exists>r. main_plan sha256 target num_chunks core_split elements = Inr r
            \<and> core r = join '' '' (map name (take (nat core_split) elements))"
  proof (cases "elements = []")
    case True
    then show ?thesis by (simp add: main_plan_def)
  next
    case False
    then show ?thesis by (simp add: main_plan_eq c)
  qed
  from c l m show ?thesis by simp
qed

theorem core_leaf_split_witness:
  "(0 :: int) \<le> 1
   \<and> core_elements example_plan 1 = [el ''a'' ''waiting'' ''k1'']
   \<and> leaf_elements example_plan 1 = [el ''c'' ''waiting'' ''k3'', el ''d'' ''waiting'' '''']
   \<and> (\<exists>r. main_plan count_digest ''tgt'' 2 1 example_plan = Inr r \<and> core r = ''a'')
   \<and> core_elements example_plan 5 = example_plan
   \<and> leaf_elements example_plan 5 = []"
proof -
  have h: "(0 :: int) \<le> 1" "(0 :: int) \<le> 5" by simp_all
  from core_leaf_split [OF h(1), of example_plan count_digest "''tgt''" 2]
    core_leaf_split [OF h(2), of example_plan count_digest "''tgt''" 2]
  show ?thesis by (simp add: example_plan_def el_def)
qed

subsection \<open>The composite cache key\<close>

text \<open>
  C3, as amended: two lists of elements whose keys that are not empty are the same with the
  same multiplicities, in any order and grouping, have the same composite cache key. The
  keys are sorted but not deduplicated, so that equal sets of keys are not enough: a key
  that occurs twice is hashed twice.
\<close>

theorem cache_key_multiset_invariant:
  assumes "mset (nonempty_keys xs) = mset (nonempty_keys ys)"
  shows "compute_cache_key sha256 xs = compute_cache_key sha256 ys"
  using assms by (rule compute_cache_key_cong)

theorem cache_key_multiset_invariant_witness:
  "mset (nonempty_keys [el ''a'' ''waiting'' ''k1'', el ''c'' ''waiting'' ''k3''])
     = mset (nonempty_keys [el ''c'' ''waiting'' ''k3'', el ''d'' ''waiting'' '''',
                            el ''a'' ''waiting'' ''k1''])
   \<and> compute_cache_key count_digest [el ''a'' ''waiting'' ''k1'', el ''c'' ''waiting'' ''k3'']
     = compute_cache_key count_digest [el ''c'' ''waiting'' ''k3'', el ''d'' ''waiting'' '''',
                                       el ''a'' ''waiting'' ''k1'']"
proof -
  have h: "mset (nonempty_keys [el ''a'' ''waiting'' ''k1'', el ''c'' ''waiting'' ''k3''])
     = mset (nonempty_keys [el ''c'' ''waiting'' ''k3'', el ''d'' ''waiting'' '''',
                            el ''a'' ''waiting'' ''k1''])"
    by (simp add: nonempty_keys_def el_def)
  from h cache_key_multiset_invariant [OF h, of count_digest] show ?thesis by simp
qed

text \<open>
  Two elements with the same key against one of them: the sets of keys are equal and the
  composite keys differ, for a digest that tells the two joined strings apart.
\<close>

theorem cache_key_set_counterexample:
  "set (nonempty_keys [el ''a'' ''waiting'' ''k1'', el ''b'' ''waiting'' ''k1''])
     = set (nonempty_keys [el ''a'' ''waiting'' ''k1''])
   \<and> compute_cache_key count_digest [el ''a'' ''waiting'' ''k1'', el ''b'' ''waiting'' ''k1'']
     \<noteq> compute_cache_key count_digest [el ''a'' ''waiting'' ''k1'']"
proof -
  have two: "compute_cache_key count_digest [el ''a'' ''waiting'' ''k1'', el ''b'' ''waiting'' ''k1'']
      = hexdigest 5"
    by (simp add: compute_cache_key_keys nonempty_keys_def el_def count_digest_def utf8_encode_def)
  have one: "compute_cache_key count_digest [el ''a'' ''waiting'' ''k1''] = hexdigest 2"
    by (simp add: compute_cache_key_keys nonempty_keys_def el_def count_digest_def utf8_encode_def)
  have "last (hexdigest 5) = CHR ''5''" "last (hexdigest 2) = CHR ''2''"
    by (simp_all add: last_hexdigest hex_char_def)
  then have "hexdigest 5 \<noteq> hexdigest 2"
    by auto
  with two one show ?thesis
    by (simp add: nonempty_keys_def el_def)
qed

text \<open>
  C10: the composite cache key of a list of elements is a function of the multiset of
  their key fields; in particular it stays the same when names and states are changed.
\<close>

theorem cache_key_from_keys_only:
  assumes "mset (map key xs) = mset (map key ys)"
  shows "compute_cache_key sha256 xs = compute_cache_key sha256 ys
    \<and> compute_cache_key sha256 (map (\<lambda>e. e\<lparr>name := f e, state := g e\<rparr>) xs)
        = compute_cache_key sha256 xs"
proof -
  have "mset (nonempty_keys xs) = filter_mset (\<lambda>k. k \<noteq> []) (mset (map key xs))"
    by (simp add: nonempty_keys_def)
  also have "\<dots> = filter_mset (\<lambda>k. k \<noteq> []) (mset (map key ys))"
    using assms by simp
  also have "\<dots> = mset (nonempty_keys ys)"
    by (simp add: nonempty_keys_def)
  finally have 1: "compute_cache_key sha256 xs = compute_cache_key sha256 ys"
    by (rule compute_cache_key_cong)
  have "nonempty_keys (map (\<lambda>e. e\<lparr>name := f e, state := g e\<rparr>) xs) = nonempty_keys xs"
    by (simp add: nonempty_keys_def comp_def)
  then have 2: "compute_cache_key sha256 (map (\<lambda>e. e\<lparr>name := f e, state := g e\<rparr>) xs)
        = compute_cache_key sha256 xs"
    by (simp add: compute_cache_key_keys)
  from 1 2 show ?thesis by simp
qed

theorem cache_key_from_keys_only_witness:
  "mset (map key [el ''a'' ''waiting'' ''k1'', el ''c'' ''waiting'' ''k3''])
     = mset (map key [el ''x'' ''buildable'' ''k3'', el ''y'' ''failed'' ''k1''])
   \<and> compute_cache_key count_digest [el ''a'' ''waiting'' ''k1'', el ''c'' ''waiting'' ''k3'']
     = compute_cache_key count_digest [el ''x'' ''buildable'' ''k3'', el ''y'' ''failed'' ''k1'']"
proof -
  have h: "mset (map key [el ''a'' ''waiting'' ''k1'', el ''c'' ''waiting'' ''k3''])
     = mset (map key [el ''x'' ''buildable'' ''k3'', el ''y'' ''failed'' ''k1''])"
    by (simp add: el_def)
  from h cache_key_from_keys_only [OF h, of count_digest] show ?thesis by simp
qed

subsection \<open>The name of a chunk\<close>

text \<open>
  C4, as amended: the name of an empty chunk at \<open>index\<close> is \<^verbatim>\<open>chunk<index>\<close>; the name of
  a chunk that is not empty is \<^verbatim>\<open>chunk<index>-<label>\<close>, where the label is the last path
  segment of the name of the first element, without the suffix \<^verbatim>\<open>.bst\<close> if it ends with
  it, whenever \<^verbatim>\<open>.bst\<close> does not occur in what is left; a first element named
  \<^verbatim>\<open>libs/foo.bst\<close> at index 2 gives \<^verbatim>\<open>chunk2-foo\<close>.
\<close>

theorem chunk_name_label:
  "make_chunk_name index [] = Inr (''chunk'' @ str_int index)
   \<and> (\<not> occurs ''.bst'' (spec_label (name e)) \<longrightarrow>
        make_chunk_name index (e # es) =
          Inr (''chunk'' @ str_int index @ ''-'' @ spec_label (name e)))
   \<and> make_chunk_name 2 (\<lparr>name = ''libs/foo.bst'', state = s, key = k\<rparr> # es) = Inr ''chunk2-foo''"
proof -
  have 1: "make_chunk_name index [] = Inr (''chunk'' @ str_int index)"
    by (simp add: make_chunk_name_def)
  have 2: "make_chunk_name index (e # es) =
          Inr (''chunk'' @ str_int index @ ''-'' @ spec_label (name e))"
    if "\<not> occurs ''.bst'' (spec_label (name e))"
    using that by (simp add: make_chunk_name_eq spec_label_def replace_bst_label)
  have 3: "make_chunk_name 2 (\<lparr>name = ''libs/foo.bst'', state = s, key = k\<rparr> # es)
      = Inr ''chunk2-foo''"
    by (simp add: make_chunk_name_def getitem_def rsplit1_def replace_py_def str_int_def
        str_nat.simps digit_char_def)
  from 1 2 3 show ?thesis by blast
qed

theorem chunk_name_label_witness:
  "\<not> occurs ''.bst'' (spec_label (name (el ''deps/bar.bst'' ''waiting'' ''k'')))
   \<and> make_chunk_name 7 [el ''deps/bar.bst'' ''waiting'' ''k''] = Inr ''chunk7-bar''
   \<and> make_chunk_name 7 [] = Inr ''chunk7''"
proof -
  have h: "\<not> occurs ''.bst'' (spec_label (name (el ''deps/bar.bst'' ''waiting'' ''k'')))"
    by (simp add: spec_label_def last_segment_def strip_suffix_def suffix_to_prefix el_def)
  have l: "spec_label (name (el ''deps/bar.bst'' ''waiting'' ''k'')) = ''bar''"
    by (simp add: spec_label_def last_segment_def strip_suffix_def suffix_to_prefix el_def)
  have n: "str_int 7 = ''7''"
    by (simp add: str_int_def str_nat.simps digit_char_def)
  from chunk_name_label [of 7 "el ''deps/bar.bst'' ''waiting'' ''k''" "[]"] h l n
  show ?thesis by simp
qed

text \<open>
  A name with \<^verbatim>\<open>.bst\<close> inside its last segment: every occurrence is deleted, not only the
  suffix.
\<close>

theorem chunk_name_label_counterexample:
  "make_chunk_name 0 [el ''tools/x.bst-plugins.bst'' ''waiting'' ''k''] = Inr ''chunk0-x-plugins''
   \<and> ''chunk'' @ str_int 0 @ ''-'' @ spec_label ''tools/x.bst-plugins.bst''
       = ''chunk0-x.bst-plugins''"
  by (simp add: make_chunk_name_def getitem_def rsplit1_def replace_py_def str_int_def
      str_nat.simps digit_char_def el_def spec_label_def last_segment_def strip_suffix_def
      suffix_to_prefix)

subsection \<open>The filter\<close>

text \<open>
  C9, as amended: a line with fewer than two fields is passed over and the loop goes on
  with the lines that follow; \<^verbatim>\<open>get_build_plan\<close> returns for every output of the build
  tool, and what it returns are the elements of the lines with at least two fields whose
  state is not \<^verbatim>\<open>cached\<close>, in the order of the lines.
\<close>

theorem filter_skips_malformed:
  "fst (get_build_plan stdout) = map element_of (filter retained (splitlines stdout))
   \<and> (length (line_fields line) < 2 \<longrightarrow>
        plan_loop (line # lines) (elements, err) = plan_loop lines (elements, err))
   \<and> fst (plan_loop lines (elements, err)) = elements @ map element_of (filter retained lines)"
  by (simp add: get_build_plan_def plan_loop_eq retained_def)

theorem filter_skips_malformed_witness:
  "fst (get_build_plan (''a||waiting||k1'' @ [CHR 0x0A] @ ''no separator'' @ [CHR 0x0A]
        @ ''b||cached||k2'' @ [CHR 0x0A] @ ''c||waiting''))
     = [el ''a'' ''waiting'' ''k1'', el ''c'' ''waiting'' '''']
   \<and> length (line_fields ''no separator'') < 2
   \<and> plan_loop [''no separator'', ''c||waiting''] ([el ''a'' ''waiting'' ''k1''], [])
       = plan_loop [''c||waiting''] ([el ''a'' ''waiting'' ''k1''], [])"
proof -
  have h: "length (line_fields ''no separator'') < 2"
    by code_simp
  have v: "map element_of (filter retained (splitlines (''a||waiting||k1'' @ [CHR 0x0A]
        @ ''no separator'' @ [CHR 0x0A] @ ''b||cached||k2'' @ [CHR 0x0A] @ ''c||waiting'')))
      = [el ''a'' ''waiting'' ''k1'', el ''c'' ''waiting'' '''']"
    by code_simp
  from filter_skips_malformed [of "''a||waiting||k1'' @ [CHR 0x0A] @ ''no separator'' @ [CHR 0x0A]
        @ ''b||cached||k2'' @ [CHR 0x0A] @ ''c||waiting''" "''no separator''" "[''c||waiting'']"
        "[el ''a'' ''waiting'' ''k1'']" "[]"] h v
  show ?thesis by simp
qed

text \<open>
  A line without a separator has one field; it is passed over and nothing is printed on the
  standard error stream.
\<close>

theorem filter_diagnostic_counterexample:
  "length (line_fields ''no separator'') < 2
   \<and> get_build_plan ''no separator'' = ([], [])"
  by code_simp

subsection \<open>Round-robin chunks\<close>

text \<open>
  C2: for a leaf group of \<open>L\<close> elements and a chunk count \<open>N\<close> with \<open>1 \<le> N \<le> L\<close>, there are
  \<open>N\<close> chunks; each has \<open>L div N\<close> or \<open>(L + N - 1) div N\<close> elements, the floor and the ceiling
  of \<open>L / N\<close>; chunk \<open>i\<close> is the list of the leaves at the positions \<open>i\<close>, \<open>i + N\<close>,
  \<open>i + 2N\<close>, ..., in their order; reading position \<open>j div N\<close> of chunk \<open>j mod N\<close> for
  \<open>j = 0, 1, ...\<close> gives the leaves back in their order. These are the chunks \<^verbatim>\<open>main\<close>
  makes.
\<close>

theorem round_robin_chunks:
  assumes "1 \<le> N" "N \<le> length leaf"
  shows "length (chunk_list leaf (int N)) = N
    \<and> (\<forall>i<N. length (chunk_list leaf (int N) ! i) = length leaf div N
             \<or> length (chunk_list leaf (int N) ! i) = (length leaf + N - 1) div N)
    \<and> (\<forall>i<N. chunk_list leaf (int N) ! i
             = map (\<lambda>j. leaf ! j) (filter (\<lambda>j. j mod N = i) [0..<length leaf]))
    \<and> map (\<lambda>j. chunk_list leaf (int N) ! (j mod N) ! (j div N)) [0..<length leaf] = leaf
    \<and> leaf_chunks leaf (int N) = chunk_list leaf (int N)"
proof -
  from assms(1) have N: "0 < N" by simp
  have sizes: "length (chunk_list leaf (int N) ! i) = length leaf div N
      \<or> length (chunk_list leaf (int N) ! i) = (length leaf + N - 1) div N" if "i < N" for i
    using chunk_size_bounds [OF N assms(2) that] that N
    by (simp add: nth_chunk_list length_every_nth)
  have members: "chunk_list leaf (int N) ! i
      = map (\<lambda>j. leaf ! j) (filter (\<lambda>j. j mod N = i) [0..<length leaf])" if "i < N" for i
    using that by (simp add: nth_chunk_list every_nth_as_map [OF N] chunk_indices [OF N that] comp_def)
  have interleave: "map (\<lambda>j. chunk_list leaf (int N) ! (j mod N) ! (j div N)) [0..<length leaf] = leaf"
  proof (rule nth_equalityI)
    show "length (map (\<lambda>j. chunk_list leaf (int N) ! (j mod N) ! (j div N)) [0..<length leaf])
        = length leaf"
      by simp
  next
    fix j
    assume "j < length (map (\<lambda>j. chunk_list leaf (int N) ! (j mod N) ! (j div N)) [0..<length leaf])"
    then have j: "j < length leaf" by simp
    have m: "j mod N < N" using N by simp
    have e: "j mod N + j div N * N = j" by simp
    then have "j mod N + j div N * N < length leaf" using j by simp
    then have "j div N < (length leaf - j mod N + (N - 1)) div N"
      using N by (simp only: index_in_chunk_iff)
    then have "j div N < length (every_nth (j mod N) N leaf)"
      using N by (simp add: length_every_nth)
    then have "every_nth (j mod N) N leaf ! (j div N) = leaf ! (j mod N + j div N * N)"
      by (rule nth_every_nth [OF N])
    with j m e show "map (\<lambda>j. chunk_list leaf (int N) ! (j mod N) ! (j div N)) [0..<length leaf] ! j
        = leaf ! j"
      by (simp add: nth_chunk_list)
  qed
  from sizes members interleave leaf_chunks_eq [OF assms] show ?thesis
    by (simp add: length_chunk_list)
qed

theorem round_robin_chunks_witness:
  "(1 :: nat) \<le> 3 \<and> 3 \<le> length example_leaves
   \<and> length (chunk_list example_leaves 3) = 3
   \<and> map name (chunk_list example_leaves 3 ! 0) = [''a'', ''d'', ''g'']
   \<and> map name (chunk_list example_leaves 3 ! 1) = [''b'', ''e'']
   \<and> map name (chunk_list example_leaves 3 ! 2) = [''c'', ''f'']
   \<and> map (\<lambda>j. chunk_list example_leaves 3 ! (j mod 3) ! (j div 3)) [0..<length example_leaves]
       = example_leaves
   \<and> leaf_chunks example_leaves 3 = chunk_list example_leaves 3"
proof -
  have h1: "(1 :: nat) \<le> 3" and h2: "3 \<le> length example_leaves"
    by (simp_all add: example_leaves_def)
  note r = round_robin_chunks [OF h1 h2, unfolded of_nat_numeral]
  note len = r [THEN conjunct1]
  note members = r [THEN conjunct2, THEN conjunct2, THEN conjunct1, rule_format]
  note il = r [THEN conjunct2, THEN conjunct2, THEN conjunct2, THEN conjunct1]
  note lc = r [THEN conjunct2, THEN conjunct2, THEN conjunct2, THEN conjunct2]
  have f0: "map name (map (\<lambda>j. example_leaves ! j)
        (filter (\<lambda>j. j mod 3 = 0) [0..<length example_leaves])) = [''a'', ''d'', ''g'']"
    by code_simp
  have f1: "map name (map (\<lambda>j. example_leaves ! j)
        (filter (\<lambda>j. j mod 3 = 1) [0..<length example_leaves])) = [''b'', ''e'']"
    by code_simp
  have f2: "map name (map (\<lambda>j. example_leaves ! j)
        (filter (\<lambda>j. j mod 3 = 2) [0..<length example_leaves])) = [''c'', ''f'']"
    by code_simp
  have c0: "map name (chunk_list example_leaves 3 ! 0) = [''a'', ''d'', ''g'']"
    using members [of 0] f0 by simp
  have c1: "map name (chunk_list example_leaves 3 ! 1) = [''b'', ''e'']"
    using members [of 1] f1 by simp
  have c2: "map name (chunk_list example_leaves 3 ! 2) = [''c'', ''f'']"
    using members [of 2] f2 by simp
  from h1 h2 len c0 c1 c2 il lc show ?thesis by blast
qed

subsection \<open>The number of chunks\<close>

text \<open>
  C7: for a leaf group that is not empty and a requested chunk count \<open>N > 0\<close>, \<^verbatim>\<open>main\<close>
  makes \<open>min N (length leaf)\<close> chunks; for an empty leaf group or \<open>N \<le> 0\<close> it makes none;
  no chunk is empty, so that the loop passes over none of them and the matrix has one entry
  for each chunk.
\<close>

theorem chunk_count:
  "length (leaf_chunks leaf num_chunks)
     = (if leaf \<noteq> [] \<and> 0 < num_chunks then min (nat num_chunks) (length leaf) else 0)
   \<and> (\<forall>chunk \<in> set (leaf_chunks leaf num_chunks). chunk \<noteq> [])
   \<and> emitted (leaf_chunks leaf num_chunks) = enumerate 0 (leaf_chunks leaf num_chunks)
   \<and> (\<exists>r. main_plan sha256 target num_chunks core_split elements = Inr r
          \<and> length (matrix r) = length (leaf_chunks (leaf_elements elements core_split) num_chunks)
          \<and> map snd (matrix r)
              = map (\<lambda>chunk. join '' '' (map name chunk))
                  (leaf_chunks (leaf_elements elements core_split) num_chunks))"
proof -
  have "\<forall>chunk \<in> set (leaf_chunks leaf num_chunks). chunk \<noteq> []"
    using leaf_chunks_nonempty by blast
  then show ?thesis
    by (simp add: length_leaf_chunks emitted_leaf_chunks main_plan_eq_all comp_def
        map_snd_enumerate_comp [of "\<lambda>chunk. join '' '' (map name chunk)"])
qed

theorem chunk_count_witness:
  "length (leaf_chunks example_leaves 3) = 3
   \<and> length (leaf_chunks example_leaves 10) = 7
   \<and> length (leaf_chunks example_leaves 0) = 0
   \<and> length (leaf_chunks [] 4) = 0
   \<and> [] \<notin> set (leaf_chunks example_leaves 3)
   \<and> (\<exists>r. main_plan count_digest ''tgt'' 3 0 example_leaves = Inr r \<and> length (matrix r) = 3)"
proof -
  have l: "length example_leaves = 7" "example_leaves \<noteq> []"
    by (simp_all add: example_leaves_def)
  have z: "leaf_elements example_leaves 0 = example_leaves"
    by (simp add: leaf_elements_def slice_from_def)
  from chunk_count [of example_leaves 3 count_digest "''tgt''" 0 example_leaves]
    chunk_count [of example_leaves 10 count_digest "''tgt''" 0 example_leaves]
    chunk_count [of example_leaves 0 count_digest "''tgt''" 0 example_leaves]
    chunk_count [of "[]" 4 count_digest "''tgt''" 0 example_leaves]
    l z
  show ?thesis by auto
qed

subsection \<open>Completeness of the partition\<close>

text \<open>
  C1, as amended: for every plan and every core split, when the chunk count is positive or
  there are no leaves, the elements of the core and of the chunks in the matrix are the
  elements of the plan, each once: nothing is repeated and nothing is left out. The core
  string and the values of the matrix are the names of these groups, and no two chunks
  have the same name, so that no entry of the matrix is overwritten.
\<close>

theorem partition_complete:
  assumes "0 < num_chunks \<or> leaf_elements elements core_split = []"
  shows "mset (core_elements elements core_split
            @ concat (map snd (emitted (leaf_chunks (leaf_elements elements core_split) num_chunks))))
       = mset elements
    \<and> (\<exists>r. main_plan sha256 target num_chunks core_split elements = Inr r
         \<and> core r = join '' '' (map name (core_elements elements core_split))
         \<and> map snd (matrix r)
             = map (\<lambda>p. join '' '' (map name (snd p)))
                 (emitted (leaf_chunks (leaf_elements elements core_split) num_chunks))
         \<and> distinct (map fst (matrix r)))"
proof -
  let ?core = "core_elements elements core_split"
  let ?leaf = "leaf_elements elements core_split"
  have "mset (concat (map snd (emitted (leaf_chunks ?leaf num_chunks)))) = mset ?leaf"
    using assms by (simp add: emitted_leaf_chunks mset_concat_leaf_chunks)
  moreover have "?core @ ?leaf = elements"
    by (simp add: core_elements_def leaf_elements_def slices_partition)
  ultimately have 1: "mset (?core @ concat (map snd (emitted (leaf_chunks ?leaf num_chunks))))
       = mset elements"
    by (metis mset_append)
  have 2: "distinct (map (\<lambda>p. chunk_name (fst p) (snd p)) (emitted (leaf_chunks ?leaf num_chunks)))"
    unfolding emitted_alt by (rule emitted_names_distinct)
  from 1 2 show ?thesis
    by (simp add: main_plan_eq_all comp_def)
qed

theorem partition_complete_witness:
  "(0 < (2 :: int) \<or> leaf_elements example_plan 1 = [])
   \<and> mset (core_elements example_plan 1
            @ concat (map snd (emitted (leaf_chunks (leaf_elements example_plan 1) 2))))
       = mset example_plan
   \<and> (\<exists>r. main_plan count_digest ''tgt'' 2 1 example_plan = Inr r
         \<and> core r = ''a'' \<and> map snd (matrix r) = [''c'', ''d''])"
proof -
  have h: "0 < (2 :: int) \<or> leaf_elements example_plan 1 = []" by simp
  have c: "join '' '' (map name (core_elements example_plan 1)) = ''a''"
    by code_simp
  have m: "map (\<lambda>p. join '' '' (map name (snd p)))
             (emitted (leaf_chunks (leaf_elements example_plan 1) 2)) = [''c'', ''d'']"
    by code_simp
  from partition_complete [OF h, of count_digest "''tgt''"] h c m
  show ?thesis by auto
qed

text \<open>
  With a chunk count of 0 no chunk is made: the two leaves of the example are in the core
  of no group and in no chunk.
\<close>

theorem partition_zero_chunks_counterexample:
  "main_plan count_digest ''tgt'' 0 1 example_plan
     = Inr \<lparr>core = ''a'', matrix = [], cache_keys = [], final = ''tgt''\<rparr>
   \<and> mset (core_elements example_plan 1
            @ concat (map snd (emitted (leaf_chunks (leaf_elements example_plan 1) 0))))
       \<noteq> mset example_plan"
proof -
  have "main_plan count_digest ''tgt'' 0 1 example_plan
     = Inr \<lparr>core = ''a'', matrix = [], cache_keys = [], final = ''tgt''\<rparr>"
    by (simp add: main_plan_def leaf_chunks_def core_elements_def slice_to_def example_plan_def
        el_def)
  moreover have "core_elements example_plan 1
            @ concat (map snd (emitted (leaf_chunks (leaf_elements example_plan 1) 0)))
       = [el ''a'' ''waiting'' ''k1'']"
    by (simp add: leaf_chunks_def core_elements_def slice_to_def example_plan_def emitted_def)
  moreover have "mset [el ''a'' ''waiting'' ''k1''] \<noteq> mset example_plan"
    by (simp add: example_plan_def)
  ultimately show ?thesis by simp
qed

subsection \<open>The keys of the matrix and of the cache keys\<close>

text \<open>
  C5: \<^verbatim>\<open>main\<close> returns a result in which the keys of the matrix are the names of the
  chunks, the keys of the cache-key mapping are among them, and the name of a chunk is a key
  of the cache-key mapping exactly when its composite key is not the empty string, that is,
  when one of its elements has a key that is not empty.
\<close>

theorem matrix_and_cache_keys:
  "\<exists>r. main_plan sha256 target num_chunks core_split elements = Inr r
     \<and> fst ` set (matrix r)
         = (\<lambda>p. chunk_name (fst p) (snd p))
             ` set (emitted (leaf_chunks (leaf_elements elements core_split) num_chunks))
     \<and> fst ` set (cache_keys r) \<subseteq> fst ` set (matrix r)
     \<and> (\<forall>p \<in> set (emitted (leaf_chunks (leaf_elements elements core_split) num_chunks)).
           (chunk_name (fst p) (snd p) \<in> fst ` set (cache_keys r))
             = (compute_cache_key sha256 (snd p) \<noteq> [])
           \<and> (compute_cache_key sha256 (snd p) = []) = (\<forall>e \<in> set (snd p). key e = []))"
proof -
  let ?em = "emitted (leaf_chunks (leaf_elements elements core_split) num_chunks)"
  let ?nm = "\<lambda>p. chunk_name (fst p) (snd p)"
  let ?m = "map (\<lambda>p. (?nm p, join '' '' (map name (snd p)))) ?em"
  let ?k = "map (\<lambda>p. (?nm p, compute_cache_key sha256 (snd p)))
              (filter (\<lambda>p. compute_cache_key sha256 (snd p) \<noteq> []) ?em)"
  let ?r = "\<lparr>core = join '' '' (map name (core_elements elements core_split)),
          matrix = ?m, cache_keys = ?k, final = target\<rparr>"
  have r: "main_plan sha256 target num_chunks core_split elements = Inr ?r"
    by (rule main_plan_eq_all)
  have sm: "matrix ?r = ?m" and sk: "cache_keys ?r = ?k"
    by simp_all
  have 1: "fst ` set (matrix ?r) = ?nm ` set ?em"
    unfolding sm by (rule entry_names)
  have 2: "fst ` set (cache_keys ?r) \<subseteq> fst ` set (matrix ?r)"
    unfolding sm sk by (rule key_entries_subset)
  have 3: "\<forall>p \<in> set ?em.
           (?nm p \<in> fst ` set (cache_keys ?r)) = (compute_cache_key sha256 (snd p) \<noteq> [])
           \<and> (compute_cache_key sha256 (snd p) = []) = (\<forall>e \<in> set (snd p). key e = [])"
  proof (rule ballI, rule conjI)
    fix p
    assume p: "p \<in> set ?em"
    show "(?nm p \<in> fst ` set (cache_keys ?r)) = (compute_cache_key sha256 (snd p) \<noteq> [])"
      unfolding sk using emitted_names_inj p by (rule key_entry_member)
    show "(compute_cache_key sha256 (snd p) = []) = (\<forall>e \<in> set (snd p). key e = [])"
      by (rule compute_cache_key_empty_iff)
  qed
  show ?thesis
    apply (rule exI [of _ ?r])
    apply (rule conjI, rule r)
    apply (rule conjI, rule 1)
    apply (rule conjI, rule 2)
    apply (rule 3)
    done
qed

theorem matrix_and_cache_keys_witness:
  "\<exists>r. main_plan count_digest ''tgt'' 2 1 example_plan = Inr r
     \<and> fst ` set (matrix r) = {''chunk0-c'', ''chunk1-d''}
     \<and> fst ` set (cache_keys r) \<subseteq> fst ` set (matrix r)
     \<and> ''chunk0-c'' \<in> fst ` set (cache_keys r)
     \<and> ''chunk1-d'' \<notin> fst ` set (cache_keys r)"
proof -
  let ?em = "emitted (leaf_chunks (leaf_elements example_plan 1) 2)"
  let ?c = "[el ''c'' ''waiting'' ''k3'']"
  let ?d = "[el ''d'' ''waiting'' '''']"
  from matrix_and_cache_keys [of count_digest "''tgt''" 2 1 example_plan]
  obtain r where all: "main_plan count_digest ''tgt'' 2 1 example_plan = Inr r
     \<and> fst ` set (matrix r) = (\<lambda>p. chunk_name (fst p) (snd p)) ` set ?em
     \<and> fst ` set (cache_keys r) \<subseteq> fst ` set (matrix r)
     \<and> (\<forall>p \<in> set ?em.
           (chunk_name (fst p) (snd p) \<in> fst ` set (cache_keys r))
             = (compute_cache_key count_digest (snd p) \<noteq> [])
           \<and> (compute_cache_key count_digest (snd p) = []) = (\<forall>e \<in> set (snd p). key e = []))" ..
  note r = all [THEN conjunct1]
  note m = all [THEN conjunct2, THEN conjunct1]
  note sub = all [THEN conjunct2, THEN conjunct2, THEN conjunct1]
  note iff = all [THEN conjunct2, THEN conjunct2, THEN conjunct2, rule_format, THEN conjunct1]
  have em: "?em = [(0, ?c), (1, ?d)]"
    by code_simp
  have n0: "chunk_name 0 ?c = ''chunk0-c''"
    by code_simp
  have n1: "chunk_name 1 ?d = ''chunk1-d''"
    by code_simp
  from n1 have n1': "chunk_name (Suc 0) ?d = ''chunk1-d''"
    by simp
  have k0: "compute_cache_key count_digest ?c \<noteq> []"
    by (simp add: compute_cache_key_empty_iff el_def)
  have k1: "compute_cache_key count_digest ?d = []"
    by (simp add: compute_cache_key_empty_iff el_def)
  have mem0: "(0, ?c) \<in> set ?em" and mem1: "(1, ?d) \<in> set ?em"
    by (simp_all only: em list.set insert_iff simp_thms)
  have m': "fst ` set (matrix r) = {''chunk0-c'', ''chunk1-d''}"
    unfolding m em by (simp add: n0 n1')
  have i0: "''chunk0-c'' \<in> fst ` set (cache_keys r)"
    using iff [OF mem0] k0 by (simp add: n0)
  have i1: "''chunk1-d'' \<notin> fst ` set (cache_keys r)"
    using iff [OF mem1] k1 by (simp add: n1')
  show ?thesis
    apply (rule exI [of _ r])
    apply (rule conjI, rule r)
    apply (rule conjI, rule m')
    apply (rule conjI, rule sub)
    apply (rule conjI, rule i0)
    apply (rule i1)
    done
qed

end
